theory Spec2Isabelle
  imports Complex_Main "HOL-Library.Word"
begin

section \<open>Numbers and the input stream\<close>

text \<open>
  The programs compute on C++ \<^verbatim>\<open>double\<close>, the binary64 format. A finite double is
  modelled by the real number it denotes, and the real \<open>2 ^ 1024\<close>, one binade above the
  largest finite double, stands for infinity, so that the order of the reals is the
  order of the doubles. The sign of zero and the NaNs are not modelled: the loader
  neither reads nor computes a NaN.
\<close>

type_synonym double = real

text \<open>
  \<open>bits n\<close> is the number of binary digits of \<open>n\<close>, and \<open>ilog2 x\<close> the binary exponent
  of a positive \<open>x\<close>: the \<open>e\<close> with \<open>2 ^ e \<le> x < 2 ^ (e + 1)\<close>.
\<close>

function bits :: "int \<Rightarrow> int" where
  "bits n = (if n \<le> 0 then 0 else 1 + bits (n div 2))"
  by pat_completeness auto

definition ilog2 :: "real \<Rightarrow> int" where
  "ilog2 x = (if 1 \<le> x then bits \<lfloor>x\<rfloor> - 1 else - bits (\<lceil>1 / x\<rceil> - 1))"

definition pow2 :: "int \<Rightarrow> real" where
  "pow2 e = (if 0 \<le> e then 2 ^ nat e else 1 / 2 ^ nat (- e))"

text \<open>
  Rounding to nearest, ties to even. Around \<open>x\<close> the doubles are the multiples of
  \<open>ulp x\<close>: 53 significant bits, and the spacing of the subnormal numbers below
  \<open>2 ^ - 1022\<close>. \<open>round_nearest\<close> rounds as if the exponent had no upper bound;
  \<open>to_double\<close> gives no double when the rounded magnitude reaches \<open>2 ^ 1024\<close>.
\<close>

definition nearest_even :: "real \<Rightarrow> int" where
  "nearest_even q =
     (let f = \<lfloor>q\<rfloor>; d = q - of_int f
      in if d < 1 / 2 then f else if 1 / 2 < d then f + 1 else if even f then f else f + 1)"

definition ulp :: "real \<Rightarrow> real" where
  "ulp x = pow2 (max (ilog2 \<bar>x\<bar>) (- 1022) - 52)"

definition round_nearest :: "real \<Rightarrow> real" where
  "round_nearest x = (if x = 0 then 0 else of_int (nearest_even (x / ulp x)) * ulp x)"

definition to_double :: "real \<Rightarrow> double option" where
  "to_double x = (let r = round_nearest x in if 1024 \<le> ilog2 \<bar>r\<bar> then None else Some r)"

definition DBL_MAX :: double where
  "DBL_MAX = 2 ^ 1024 - 2 ^ 971"

definition infinity :: double where
  "infinity = 2 ^ 1024"

text \<open>The product of two finite doubles: the exact product rounded, infinite on overflow.\<close>

definition dmul :: "double \<Rightarrow> double \<Rightarrow> double" where
  "dmul a b =
     (case to_double (a * b) of
        None \<Rightarrow> if a * b < 0 then - infinity else infinity
      | Some r \<Rightarrow> r)"

text \<open>
  \<^verbatim>\<open>std::ifstream\<close> belongs to the C++ standard library, not to the repository. It is
  modelled by the characters still to be read and the two state flags that
  \<^verbatim>\<open>readTransferFunction\<close> tests, \<^verbatim>\<open>eof()\<close> and \<^verbatim>\<open>fail()\<close>.
\<close>

record ifstream =
  buf :: string
  eofbit :: bool
  failbit :: bool

definition isspace :: "char \<Rightarrow> bool" where
  "isspace c = (c \<in> set [CHR '' '', CHR 0x09, CHR 0x0A, CHR 0x0B, CHR 0x0C, CHR 0x0D])"

definition isdigit :: "char \<Rightarrow> bool" where
  "isdigit c = (c \<in> set ''0123456789'')"

definition digit_val :: "char \<Rightarrow> nat" where
  "digit_val c = of_char c - 48"

definition dec :: "string \<Rightarrow> nat" where
  "dec ds = foldl (\<lambda>a c. 10 * a + digit_val c) 0 ds"

text \<open>
  Formatted extraction of a floating-point number in the C locale, as the GNU library
  does it: an optional sign, digits with an optional fraction, and an optional decimal
  exponent. The characters that can continue a number are taken greedily. There is no
  conversion when the mantissa has no digit or an exponent marker is not followed by a
  digit. Otherwise the decimal value is rounded to the nearest double; a value that
  overflows is out of range, and the largest finite double with its sign is stored.
  The result is the outcome of the conversion and the characters left in the stream.
\<close>

datatype conversion = NoConversion | OutOfRange double | Converted double

definition convert :: "real \<Rightarrow> conversion" where
  "convert v =
     (case to_double v of
        None \<Rightarrow> OutOfRange (if v < 0 then - DBL_MAX else DBL_MAX)
      | Some x \<Rightarrow> Converted x)"

definition take_sign :: "string \<Rightarrow> bool \<times> string" where
  "take_sign b =
     (case b of
        [] \<Rightarrow> (False, b)
      | c # r \<Rightarrow> if c = CHR ''-'' then (True, r) else if c = CHR ''+'' then (False, r)
                 else (False, b))"

definition take_fraction :: "string \<Rightarrow> string \<times> string" where
  "take_fraction b =
     (case b of
        [] \<Rightarrow> ([], b)
      | c # r \<Rightarrow> if c = CHR ''.'' then (takeWhile isdigit r, dropWhile isdigit r)
                 else ([], b))"

definition take_exponent :: "string \<Rightarrow> (bool \<times> string) option \<times> string" where
  "take_exponent b =
     (case b of
        [] \<Rightarrow> (None, b)
      | c # r \<Rightarrow>
          if c = CHR ''e'' \<or> c = CHR ''E'' then
            (let (neg, r1) = take_sign r
             in (Some (neg, takeWhile isdigit r1), dropWhile isdigit r1))
          else (None, b))"

definition scale10 :: "bool \<Rightarrow> nat \<Rightarrow> real \<Rightarrow> real" where
  "scale10 neg e m = (if neg then m / 10 ^ e else m * 10 ^ e)"

definition parse_double :: "string \<Rightarrow> conversion \<times> string" where
  "parse_double b =
     (let (neg, b1) = take_sign b;
          ip = takeWhile isdigit b1;
          b2 = dropWhile isdigit b1;
          (fp, b3) = take_fraction b2;
          (ex, b4) = (if ip = [] \<and> fp = [] then (None, b3) else take_exponent b3);
          m = real (dec ip) + real (dec fp) / 10 ^ length fp;
          sm = (if neg then - m else m)
      in if ip = [] \<and> fp = [] then (NoConversion, b4)
         else (case ex of
                 None \<Rightarrow> (convert sm, b4)
               | Some (eneg, ds) \<Rightarrow>
                   if ds = [] then (NoConversion, b4)
                   else (convert (scale10 eneg (dec ds) sm), b4)))"

text \<open>
  \<^verbatim>\<open>infile >> v\<close>. When the stream is not good the extraction does nothing but set
  \<^verbatim>\<open>failbit\<close> and \<^verbatim>\<open>v\<close> keeps its value. Otherwise leading white space is skipped;
  running out of characters there sets both flags. Without a conversion 0 is stored,
  out of range the largest finite double, and both set \<^verbatim>\<open>failbit\<close>. Whenever the
  number extends to the last character of the stream, \<^verbatim>\<open>eofbit\<close> is set although the
  extraction succeeded.
\<close>

definition get_double :: "double \<Rightarrow> ifstream \<Rightarrow> double \<times> ifstream" where
  "get_double v s =
     (if eofbit s \<or> failbit s then (v, s\<lparr>failbit := True\<rparr>)
      else
        (let b = dropWhile isspace (buf s)
         in if b = [] then (v, \<lparr>buf = [], eofbit = True, failbit = True\<rparr>)
            else (case parse_double b of
                    (NoConversion, r) \<Rightarrow> (0, \<lparr>buf = r, eofbit = (r = []), failbit = True\<rparr>)
                  | (OutOfRange m, r) \<Rightarrow> (m, \<lparr>buf = r, eofbit = (r = []), failbit = True\<rparr>)
                  | (Converted x, r) \<Rightarrow> (x, \<lparr>buf = r, eofbit = (r = []), failbit = False\<rparr>))))"

text \<open>The stream just after \<^verbatim>\<open>infile.open\<close> succeeded on a file with the given content.\<close>

definition opened :: "string \<Rightarrow> ifstream" where
  "opened content = \<lparr>buf = content, eofbit = False, failbit = False\<rparr>"

section \<open>The transfer-function loader\<close>

text \<open>
  The sensor, the track generator and the drift-line integrator are objects of the
  Garfield++ library. The model records the calls the programs make on them, in
  program order; \<^verbatim>\<open>Sensor&\<close> is the record of calls so far. The gas, the geometry,
  the canvases and the views leave no entry, and \<^verbatim>\<open>NewTrack\<close> is always called with
  the same arguments, which are left out.
\<close>

datatype Call =
    AddElectrode
  | SetTimeWindow double double nat
  | SetTransferFunction "double list" "double list"
  | ClearSignal
  | SetGainFluctuationsPolya double double
  | NewTrack
  | DriftElectron double double double double
  | ConvoluteSignals
  | ComputeThresholdCrossings double
  | PlotSignal

type_synonym Sensor = "Call list"

text \<open>
  The loop of \<^verbatim>\<open>readTransferFunction\<close>, lines 27 to 33:
  \<^verbatim>\<open>while (!infile.eof()) { double t = 0., f = 0.; infile >> t >> f;
    if (infile.eof() || infile.fail()) break;
    times.push_back(1.e3 * t); values.push_back(f); }\<close>
\<close>

function read_loop :: "ifstream \<Rightarrow> double list \<Rightarrow> double list \<Rightarrow> double list \<times> double list" where
  "read_loop infile times' values' =
     (if eofbit infile then (times', values')
      else
        (let (t, s1) = get_double 0 infile;
             (f, s2) = get_double 0 s1
         in if eofbit s2 \<or> failbit s2 then (times', values')
            else read_loop s2 (times' @ [dmul 1000 t]) (values' @ [f])))"
  by pat_completeness auto

text \<open>
  The pairs \<^verbatim>\<open>(t, f)\<close> that the loop reads before it leaves: the same recursion
  as \<open>read_loop\<close>, returning the raw pairs instead of the two vectors.
\<close>

function reads :: "ifstream \<Rightarrow> (double \<times> double) list" where
  "reads infile =
     (if eofbit infile then []
      else
        (let (t, s1) = get_double 0 infile;
             (f, s2) = get_double 0 s1
         in if eofbit s2 \<or> failbit s2 then []
            else (t, f) # reads s2))"
  by pat_completeness auto

text \<open>
  \<open>successive s ps\<close>: the pairs \<open>ps\<close> are what two extractions at a time deliver from
  \<open>s\<close> on, none of them failing.
\<close>

fun successive :: "ifstream \<Rightarrow> (double \<times> double) list \<Rightarrow> bool" where
  "successive s [] = True"
| "successive s (p # ps) =
     (let (t, s1) = get_double 0 s;
          (f, s2) = get_double 0 s1
      in \<not> failbit s1 \<and> \<not> failbit s2 \<and> p = (t, f) \<and> successive s2 ps)"

datatype error = ResourceUnavailable | MissingTransferFunction | InvalidGridSpec

text \<open>
  \<^verbatim>\<open>readTransferFunction\<close>, lines 18 to 37. The file system is the argument
  \<open>file\<close>: the content of \<^verbatim>\<open>mdt_elx_delta.txt\<close>, or \<open>None\<close> when it cannot be
  opened. \<^verbatim>\<open>return false\<close> (after the message on \<^verbatim>\<open>cerr\<close>) is
  \<open>Inl ResourceUnavailable\<close>; \<^verbatim>\<open>return true\<close> is \<open>Inr\<close> of the sensor after
  \<^verbatim>\<open>SetTransferFunction\<close>.
\<close>

definition readTransferFunction :: "string option \<Rightarrow> Sensor \<Rightarrow> error + Sensor" where
  "readTransferFunction file sensor =
     (case file of
        None \<Rightarrow> Inl ResourceUnavailable
      | Some content \<Rightarrow>
          (let (times', values') = read_loop (opened content) [] []
           in Inr (sensor @ [SetTransferFunction times' values'])))"

subsection \<open>What the specification says of malformed lines\<close>





text \<open>The samples the loader hands to the sensor, as pairs.\<close>

definition loaded_samples :: "string \<Rightarrow> (double \<times> double) list" where
  "loaded_samples content =
     (let (times', values') = read_loop (opened content) [] [] in zip times' values')"











section \<open>The driver of the chamber simulation\<close>

text \<open>
  \<^verbatim>\<open>main\<close> of \<^verbatim>\<open>idea_chamber.C\<close>. What the library gives back to the driver is an
  input of the model: the content of the transfer-function file, the clusters that
  \<^verbatim>\<open>track.GetClusters()\<close> returns for track \<open>j\<close>, and the result of
  \<^verbatim>\<open>ComputeThresholdCrossings\<close> for track \<open>j\<close>.
\<close>

record Electron =
  e_x :: double
  e_y :: double
  e_z :: double
  e_t :: double

record Cluster =
  electrons :: "Electron list"

record World =
  tf_file :: "string option"
  GetClusters :: "nat \<Rightarrow> Cluster list"
  crossing_found :: "nat \<Rightarrow> bool"

definition tstep :: double where "tstep = 2 / 3"
definition tmin :: double where "tmin = 0 * tstep"
definition nbins :: nat where "nbins = 3000"
definition nTracks :: nat where "nTracks = 1"
definition maxElectrons :: int where "maxElectrons = 200"

text \<open>
  Lines 189 to 192: \<^verbatim>\<open>int totalElectrons\<close> adds up the \<^verbatim>\<open>size_t\<close> sizes of the
  clusters; the sum is kept in 32 bits.
\<close>

definition totalElectrons :: "Cluster list \<Rightarrow> 32 word" where
  "totalElectrons clusters = foldl (\<lambda>n c. n + of_nat (length (electrons c))) 0 clusters"

definition drift_call :: "Electron \<Rightarrow> Call" where
  "drift_call e = DriftElectron (e_x e) (e_y e) (e_z e) (e_t e)"

text \<open>
  Lines 203 to 213, the inner and the outer loop with their \<^verbatim>\<open>break\<close>s. The counter
  \<^verbatim>\<open>processedElectrons\<close> and the calls made so far are threaded through; the value
  returned by \<^verbatim>\<open>DriftElectron\<close> is discarded by the source and has no place here.
\<close>

fun electron_loop :: "Electron list \<Rightarrow> int \<Rightarrow> Call list \<Rightarrow> int \<times> Call list" where
  "electron_loop [] processedElectrons cs = (processedElectrons, cs)"
| "electron_loop (e # es) processedElectrons cs =
     (if processedElectrons \<ge> maxElectrons then (processedElectrons, cs)
      else electron_loop es (processedElectrons + 1) (cs @ [drift_call e]))"

fun cluster_loop :: "Cluster list \<Rightarrow> int \<Rightarrow> Call list \<Rightarrow> int \<times> Call list" where
  "cluster_loop [] processedElectrons cs = (processedElectrons, cs)"
| "cluster_loop (c # rest) processedElectrons cs =
     (let (p, cs') = electron_loop (electrons c) processedElectrons cs
      in if p \<ge> maxElectrons then (p, cs') else cluster_loop rest p cs')"

definition drift_loop :: "Cluster list \<Rightarrow> Call list" where
  "drift_loop clusters = snd (cluster_loop clusters 0 [])"

text \<open>The body of the loop over the tracks, lines 177 to 252.\<close>

definition track_body :: "World \<Rightarrow> Call list \<Rightarrow> nat \<Rightarrow> Call list" where
  "track_body w cs j =
     (let cs1 = cs @ [ClearSignal, NewTrack];
          clusters = GetClusters w j
      in if totalElectrons clusters = 0 then cs1
         else
           (let cs2 = snd (cluster_loop clusters 0 cs1);
                cs3 = cs2 @ [ConvoluteSignals, ComputeThresholdCrossings (- 2)]
            in if \<not> crossing_found w j then cs3 else cs3 @ [PlotSignal]))"

text \<open>
  How \<^verbatim>\<open>main\<close> ends: with \<^verbatim>\<open>return n\<close>, or in \<^verbatim>\<open>app.Run(kTRUE)\<close>, the event loop
  of the graphics library, after which it falls off its end.
\<close>

datatype Ending = Return int | AppRun

record Run =
  calls :: "Call list"
  ending :: Ending

definition main :: "World \<Rightarrow> Run" where
  "main w =
     (let sensor = [AddElectrode, SetTimeWindow tmin tstep nbins]
      in case readTransferFunction (tf_file w) sensor of
           Inl err \<Rightarrow> \<lparr>calls = sensor, ending = Return 0\<rparr>
         | Inr sensor' \<Rightarrow>
             (let cs = sensor' @ [ClearSignal, SetGainFluctuationsPolya 0 20000]
              in \<lparr>calls = foldl (track_body w) cs [0..<nTracks], ending = AppRun\<rparr>))"

text \<open>The exit status the specification asks for after an unrecoverable failure.\<close>

definition nonzero_exit :: "Ending \<Rightarrow> bool" where
  "nonzero_exit e = (case e of Return n \<Rightarrow> n \<noteq> 0 | AppRun \<Rightarrow> False)"

definition world_without_file :: World where
  "world_without_file = \<lparr>tf_file = None, GetClusters = (\<lambda>j. []), crossing_found = (\<lambda>j. False)\<rparr>"

definition one_electron :: Electron where
  "one_electron = \<lparr>e_x = 0, e_y = 0, e_z = 0, e_t = 0\<rparr>"

definition numbered :: "nat \<Rightarrow> Electron" where
  "numbered i = \<lparr>e_x = real i, e_y = real i + 1000, e_z = real i + 2000, e_t = real i + 3000\<rparr>"

definition world_with_track :: World where
  "world_with_track =
     \<lparr>tf_file = Some ''1 2\<newline>3 4\<newline>'',
      GetClusters = (\<lambda>j. [\<lparr>electrons = [one_electron]\<rparr>]),
      crossing_found = (\<lambda>j. True)\<rparr>"

subsection \<open>Properties of the record of calls\<close>

text \<open>
  \<open>convolved_once c cs\<close>: in \<open>cs\<close> no two \<^verbatim>\<open>ConvoluteSignals\<close> follow each other
  without a \<^verbatim>\<open>ClearSignal\<close> between them; \<open>c\<close> tells whether the buffer has been
  convolved since it was last cleared. \<open>loaded_first l cs\<close>: every
  \<^verbatim>\<open>ConvoluteSignals\<close> in \<open>cs\<close> comes after a \<^verbatim>\<open>SetTransferFunction\<close>; \<open>l\<close> tells
  whether one has been made already.
\<close>

fun convolved_once :: "bool \<Rightarrow> Call list \<Rightarrow> bool" where
  "convolved_once c [] = True"
| "convolved_once c (ClearSignal # cs) = convolved_once False cs"
| "convolved_once c (ConvoluteSignals # cs) = (\<not> c \<and> convolved_once True cs)"
| "convolved_once c (_ # cs) = convolved_once c cs"

fun loaded_first :: "bool \<Rightarrow> Call list \<Rightarrow> bool" where
  "loaded_first l [] = True"
| "loaded_first l (SetTransferFunction ts vs # cs) = loaded_first True cs"
| "loaded_first l (ConvoluteSignals # cs) = (l \<and> loaded_first l cs)"
| "loaded_first l (_ # cs) = loaded_first l cs"

section \<open>The signal buffer of the sensor\<close>

text \<open>
  Modelled from the spec: the class \<^verbatim>\<open>Sensor\<close> and the deposit that
  \<^verbatim>\<open>DriftLineRKF::DriftElectron\<close> makes into it belong to the Garfield++ library and
  are not under \<^verbatim>\<open>src/\<close>. The definitions of this section follow sections 3, 4.3 and
  4.4 of the specification: the outcome of a drift, the signal buffer with its bins,
  \<open>Deposit\<close>, which skips an electron that was lost or diverged, and \<open>Convolve\<close>, which
  fails with \<open>MissingTransferFunction\<close> when no transfer function has been loaded.
  The discrete convolution is the one of section 8: an impulse in bin \<open>j\<close> reproduces
  the values of the transfer function from bin \<open>j\<close> on.
\<close>

datatype DriftResult = Collected double double | Lost | Diverged

fun is_Collected :: "DriftResult \<Rightarrow> bool" where
  "is_Collected (Collected arrivalTime avalancheGain) = True"
| "is_Collected Lost = False"
| "is_Collected Diverged = False"

record SensorState =
  transfer :: "(double \<times> double) list option"
  samples :: "double list"
  startTime :: double
  binWidth :: double
  deposits :: nat
  drifted :: nat

definition bin_of :: "SensorState \<Rightarrow> double \<Rightarrow> int" where
  "bin_of s arrivalTime = \<lfloor>(arrivalTime - startTime s) / binWidth s\<rfloor>"

definition add_at :: "int \<Rightarrow> double \<Rightarrow> double list \<Rightarrow> double list" where
  "add_at k a xs = (if 0 \<le> k \<and> k < int (length xs) then xs[nat k := xs ! nat k + a] else xs)"

text \<open>
  Modelled from the spec: \<open>Deposit\<close> of section 4.4, which is not under \<^verbatim>\<open>src/\<close>. A
  collected electron adds its gain to the bin of its arrival time; an electron that was
  lost or diverged is skipped.
\<close>

fun Deposit :: "DriftResult \<Rightarrow> SensorState \<Rightarrow> SensorState" where
  "Deposit (Collected arrivalTime avalancheGain) s =
     s\<lparr>samples := add_at (bin_of s arrivalTime) avalancheGain (samples s),
       deposits := Suc (deposits s)\<rparr>"
| "Deposit Lost s = s"
| "Deposit Diverged s = s"

definition kernel :: "(double \<times> double) list \<Rightarrow> nat \<Rightarrow> double" where
  "kernel tf k = (if k < length tf then snd (tf ! k) else 0)"

definition convolution :: "(double \<times> double) list \<Rightarrow> double list \<Rightarrow> double list" where
  "convolution tf raw =
     map (\<lambda>i. sum_list (map (\<lambda>j. raw ! j * kernel tf (i - j)) [0..<Suc i])) [0..<length raw]"

text \<open>
  Modelled from the spec: \<open>Convolve\<close> of section 4.4, which is not under \<^verbatim>\<open>src/\<close>. It
  replaces the buffer by its convolution with the transfer function and fails with
  \<open>MissingTransferFunction\<close> when none has been loaded.
\<close>

definition Convolve :: "SensorState \<Rightarrow> error + SensorState" where
  "Convolve s =
     (case transfer s of
        None \<Rightarrow> Inl MissingTransferFunction
      | Some tf \<Rightarrow> Inr (s\<lparr>samples := convolution tf (samples s)\<rparr>))"

text \<open>
  Modelled from the spec: the effect of one recorded call on the sensor, whose class is
  not under \<^verbatim>\<open>src/\<close>. \<open>outcome k\<close> is the result of the
  drift simulator for the \<open>k\<close>-th electron handed to it, any function whatever.
\<close>

fun apply_call :: "(nat \<Rightarrow> DriftResult) \<Rightarrow> Call \<Rightarrow> SensorState \<Rightarrow> error + SensorState" where
  "apply_call outcome (SetTimeWindow t0 dt n) s =
     Inr (s\<lparr>startTime := t0, binWidth := dt, samples := replicate n 0, deposits := 0\<rparr>)"
| "apply_call outcome (SetTransferFunction ts vs) s = Inr (s\<lparr>transfer := Some (zip ts vs)\<rparr>)"
| "apply_call outcome ClearSignal s =
     Inr (s\<lparr>samples := replicate (length (samples s)) 0, deposits := 0\<rparr>)"
| "apply_call outcome (DriftElectron x y z t) s =
     Inr (Deposit (outcome (drifted s)) (s\<lparr>drifted := Suc (drifted s)\<rparr>))"
| "apply_call outcome ConvoluteSignals s = Convolve s"
| "apply_call outcome c s = Inr s"

fun run_calls :: "(nat \<Rightarrow> DriftResult) \<Rightarrow> Call list \<Rightarrow> SensorState \<Rightarrow> error + SensorState" where
  "run_calls outcome [] s = Inr s"
| "run_calls outcome (c # cs) s =
     (case apply_call outcome c s of
        Inl e \<Rightarrow> Inl e
      | Inr s' \<Rightarrow> run_calls outcome cs s')"

definition new_sensor :: SensorState where
  "new_sensor =
     \<lparr>transfer = None, samples = [], startTime = 0, binWidth = 1, deposits = 0, drifted = 0\<rparr>"

definition deposit_all :: "DriftResult list \<Rightarrow> SensorState \<Rightarrow> SensorState" where
  "deposit_all rs s = foldl (\<lambda>s r. Deposit r s) s rs"

section \<open>The field grid of the gas table\<close>

text \<open>
  Modelled from the spec: \<^verbatim>\<open>MediumMagboltz::SetFieldGrid\<close> belongs to the Garfield++
  library and is not under \<^verbatim>\<open>src/\<close>. The definition follows section 4.1 of the
  specification: a grid of \<open>count\<close> values from \<open>min\<close> to \<open>max\<close>, equally spaced in the
  field or in its logarithm, and \<open>InvalidGridSpec\<close> for a count below 2, a minimum that
  is not positive or a maximum that is not above the minimum.
\<close>

text \<open>
  Modelled from the spec: value \<open>i\<close> of the grid, \<open>min * (max / min) ^ (i / (count - 1))\<close>
  in logarithmic mode and equally spaced in linear mode (section 4.1).
\<close>

definition grid_value :: "double \<Rightarrow> double \<Rightarrow> nat \<Rightarrow> bool \<Rightarrow> nat \<Rightarrow> double" where
  "grid_value emin emax ne logE i =
     (if logE then emin * (emax / emin) powr (real i / real (ne - 1))
      else emin + real i * ((emax - emin) / real (ne - 1)))"

text \<open>
  Modelled from the spec: the Field Grid Sampler of section 4.1, which is not under
  \<^verbatim>\<open>src/\<close>, with its failure \<open>InvalidGridSpec\<close>.
\<close>

definition SetFieldGrid :: "double \<Rightarrow> double \<Rightarrow> nat \<Rightarrow> bool \<Rightarrow> error + double list" where
  "SetFieldGrid emin emax ne logE =
     (if ne < 2 \<or> emin \<le> 0 \<or> emax \<le> emin then Inl InvalidGridSpec
      else Inr (map (grid_value emin emax ne logE) [0..<ne]))"

text \<open>\<^verbatim>\<open>main\<close> of \<^verbatim>\<open>generate_he_ic4h10.C\<close>, lines 29 to 36: the grid it asks for.\<close>

definition nE :: nat where "nE = 15"
definition emin :: double where "emin = 100"
definition emax :: double where "emax = 100000"
definition useLog :: bool where "useLog = True"

definition gas_field_grid :: "error + double list" where
  "gas_field_grid = SetFieldGrid emin emax nE useLog"

section \<open>Rounding to a double\<close>

termination bits
  by (relation "measure nat") auto

declare bits.simps [simp del]

lemma pow2_powi: "pow2 e = 2 powi e"
  by (simp add: pow2_def power_int_def inverse_eq_divide power_one_over)

lemma pow2_pos: "0 < pow2 e"
  by (simp add: pow2_powi)

lemma pow2_add: "pow2 (a + b) = pow2 a * pow2 b"
  by (simp add: pow2_powi power_int_add)

lemma pow2_mono: "a \<le> b \<Longrightarrow> pow2 a \<le> pow2 b"
  by (simp add: pow2_powi power_int_increasing)

lemma pow2_less_cancel: "pow2 a < pow2 b \<Longrightarrow> a < b"
  using pow2_mono[of b a] by (cases "a < b") auto

lemma pow2_nat: "pow2 (int k) = 2 ^ k"
  by (simp add: pow2_def)

lemma bits_bounds:
  "0 < n \<Longrightarrow> 0 < bits n \<and> 2 ^ nat (bits n - 1) \<le> n \<and> n < 2 ^ nat (bits n)"
proof (induction n rule: bits.induct)
  case (1 n)
  show ?case
  proof (cases "n div 2 \<le> 0")
    case True
    with "1.prems" have "n = 1" by presburger
    then show ?thesis by (simp add: bits.simps[of 1] bits.simps[of 0])
  next
    case False
    define b where "b = bits (n div 2)"
    from False "1.IH" "1.prems" have ih: "0 < b" "2 ^ nat (b - 1) \<le> n div 2" "n div 2 < 2 ^ nat b"
      by (simp_all add: b_def)
    have bn: "bits n = 1 + b" using "1.prems" by (simp add: bits.simps[of n] b_def)
    have e: "nat (1 + b) = Suc (nat b)" "nat b = Suc (nat (b - 1))" using ih(1) by simp_all
    have "2 * 2 ^ nat (b - 1) \<le> 2 * (n div 2)" using ih(2) by simp
    also have "\<dots> \<le> n" by presburger
    finally have lo: "(2::int) ^ nat b \<le> n" unfolding e(2) by simp
    have "n div 2 + 1 \<le> 2 ^ nat b" using ih(3) by simp
    then have "2 * (n div 2 + 1) \<le> 2 * 2 ^ nat b" by simp
    moreover have "n < 2 * (n div 2 + 1)" by presburger
    ultimately have hi: "n < 2 ^ nat (1 + b)" unfolding e(1) by simp
    from lo hi ih(1) show ?thesis unfolding bn by simp
  qed
qed

lemma ilog2_bounds:
  assumes "0 < x"
  shows "pow2 (ilog2 x) \<le> x \<and> x < pow2 (ilog2 x + 1)"
proof (cases "1 \<le> x")
  case True
  define n where "n = \<lfloor>x\<rfloor>"
  have n: "0 < n" using True by (simp add: n_def)
  note b = bits_bounds[OF n]
  have e: "ilog2 x = bits n - 1" using True by (simp add: ilog2_def n_def)
  have "pow2 (bits n - 1) = 2 ^ nat (bits n - 1)" using b by (simp add: pow2_def)
  also have "\<dots> = of_int (2 ^ nat (bits n - 1))" by simp
  also have "\<dots> \<le> of_int n" using b by (simp only: of_int_le_iff)
  also have "\<dots> \<le> x" by (simp add: n_def)
  finally have lo: "pow2 (ilog2 x) \<le> x" unfolding e .
  have "n + 1 \<le> 2 ^ nat (bits n)" using b by simp
  then have "of_int (n + 1) \<le> (of_int (2 ^ nat (bits n)) :: real)" by (simp only: of_int_le_iff)
  then have "of_int (n + 1) \<le> (2 :: real) ^ nat (bits n)" by simp
  moreover have "x < of_int (n + 1)" unfolding n_def by linarith
  ultimately have "x < 2 ^ nat (bits n)" by linarith
  moreover have "pow2 (bits n - 1 + 1) = 2 ^ nat (bits n)" using b by (simp add: pow2_def)
  ultimately have hi: "x < pow2 (ilog2 x + 1)" unfolding e by simp
  from lo hi show ?thesis by simp
next
  case False
  define y where "y = 1 / x"
  define m where "m = \<lceil>y\<rceil>"
  from False assms have y1: "1 < y" by (simp add: y_def)
  then have m2: "0 < m - 1" unfolding m_def by linarith
  note b = bits_bounds[OF m2]
  define k where "k = bits (m - 1)"
  have e: "ilog2 x = - k" using False by (simp add: ilog2_def k_def m_def y_def)
  have k: "0 < k" "2 ^ nat (k - 1) \<le> m - 1" "m - 1 < 2 ^ nat k" using b by (simp_all add: k_def)
  have "m \<le> 2 ^ nat k" using k(3) by simp
  then have "of_int m \<le> (of_int (2 ^ nat k) :: real)" by (simp only: of_int_le_iff)
  then have "of_int m \<le> (2 :: real) ^ nat k" by simp
  moreover have "y \<le> of_int m" by (simp add: m_def)
  ultimately have "y \<le> 2 ^ nat k" by linarith
  then have "1 / 2 ^ nat k \<le> x" using assms by (simp add: y_def field_simps)
  moreover have "pow2 (- k) = 1 / 2 ^ nat k" using k(1) by (simp add: pow2_def)
  ultimately have lo: "pow2 (ilog2 x) \<le> x" unfolding e by simp
  have "(of_int (2 ^ nat (k - 1)) :: real) \<le> of_int (m - 1)" using k(2) by (simp only: of_int_le_iff)
  then have "(2 :: real) ^ nat (k - 1) \<le> of_int (m - 1)" by simp
  moreover have "of_int (m - 1) < y" unfolding m_def by linarith
  ultimately have "2 ^ nat (k - 1) < y" by linarith
  then have "x < 1 / 2 ^ nat (k - 1)" using assms by (simp add: y_def field_simps)
  moreover have "pow2 (- k + 1) = 1 / 2 ^ nat (k - 1)"
  proof (cases "k = 1")
    case True
    then show ?thesis by (simp add: pow2_def)
  next
    case False
    with k(1) have "- k + 1 < 0" "nat (- (- k + 1)) = nat (k - 1)" by simp_all
    then show ?thesis by (simp add: pow2_def)
  qed
  ultimately have hi: "x < pow2 (ilog2 x + 1)" unfolding e by simp
  from lo hi show ?thesis by simp
qed

lemma ilog2_ge:
  assumes "0 < y" "pow2 k \<le> y"
  shows "k \<le> ilog2 y"
proof -
  from ilog2_bounds[OF assms(1)] assms(2) have "pow2 k < pow2 (ilog2 y + 1)" by simp
  then have "k < ilog2 y + 1" by (rule pow2_less_cancel)
  then show ?thesis by simp
qed

lemma nearest_even_ge: "of_int n \<le> q \<Longrightarrow> n \<le> nearest_even q"
proof -
  assume "of_int n \<le> q"
  then have "n \<le> \<lfloor>q\<rfloor>" by (simp add: le_floor_iff)
  then show ?thesis by (auto simp: nearest_even_def Let_def)
qed

lemma nearest_even_error: "\<bar>of_int (nearest_even q) - q\<bar> \<le> 1 / 2"
proof -
  have "of_int \<lfloor>q\<rfloor> \<le> q" "q < of_int \<lfloor>q\<rfloor> + 1" by linarith+
  then show ?thesis by (auto simp: nearest_even_def Let_def)
qed

lemma round_nearest_error: "\<bar>round_nearest x - x\<bar> \<le> ulp x / 2"
proof (cases "x = 0")
  case True
  then show ?thesis using pow2_pos by (simp add: round_nearest_def ulp_def less_imp_le)
next
  case False
  have u: "0 < ulp x" by (simp add: ulp_def pow2_pos)
  have "round_nearest x - x = (of_int (nearest_even (x / ulp x)) - x / ulp x) * ulp x"
    using False u by (simp add: round_nearest_def field_simps)
  then have "\<bar>round_nearest x - x\<bar> = \<bar>of_int (nearest_even (x / ulp x)) - x / ulp x\<bar> * ulp x"
    using u by (simp add: abs_mult)
  also have "\<dots> \<le> 1 / 2 * ulp x"
    using nearest_even_error[of "x / ulp x"] u by (intro mult_right_mono) simp_all
  finally show ?thesis by simp
qed

lemma round_nearest_ge_pow2:
  assumes "0 < x" "- 1022 \<le> ilog2 x"
  shows "pow2 (ilog2 x) \<le> round_nearest x"
proof -
  define e where "e = ilog2 x"
  have u: "ulp x = pow2 (e - 52)" using assms by (simp add: ulp_def e_def max_def)
  have "pow2 e = pow2 52 * pow2 (e - 52)" using pow2_add[of 52 "e - 52"] by simp
  also have "pow2 52 = of_int (2 ^ 52)" by (simp add: pow2_def)
  finally have pe: "pow2 e = of_int (2 ^ 52) * pow2 (e - 52)" .
  have "pow2 e \<le> x" using ilog2_bounds[OF assms(1)] by (simp add: e_def)
  then have "of_int (2 ^ 52) \<le> x / ulp x"
    unfolding u pe using pow2_pos[of "e - 52"] by (simp add: field_simps)
  then have "2 ^ 52 \<le> nearest_even (x / ulp x)" by (rule nearest_even_ge)
  then have "(of_int (2 ^ 52) :: real) \<le> of_int (nearest_even (x / ulp x))"
    by (simp only: of_int_le_iff)
  then have "of_int (2 ^ 52) * pow2 (e - 52) \<le> of_int (nearest_even (x / ulp x)) * pow2 (e - 52)"
    using pow2_pos[of "e - 52"] by (intro mult_right_mono) simp_all
  then show ?thesis
    using assms(1) unfolding e_def[symmetric] pe by (simp add: round_nearest_def u)
qed

lemma to_double_overflow:
  assumes "2 ^ 1024 \<le> x"
  shows "to_double x = None"
proof -
  have p: "pow2 1024 = 2 ^ 1024" by (simp add: pow2_def)
  have x: "0 < x" using assms by (smt (verit) zero_less_power)
  have e: "1024 \<le> ilog2 x" using ilog2_ge[OF x, of 1024] assms p by simp
  then have "pow2 1024 \<le> pow2 (ilog2 x)" by (rule pow2_mono)
  also have "\<dots> \<le> round_nearest x" using round_nearest_ge_pow2[OF x] e by simp
  finally have r: "pow2 1024 \<le> round_nearest x" .
  then have "0 < round_nearest x" using pow2_pos[of 1024] by linarith
  then have "1024 \<le> ilog2 \<bar>round_nearest x\<bar>" using ilog2_ge[of "round_nearest x" 1024] r by simp
  then show ?thesis by (simp add: to_double_def)
qed

section \<open>The stream: extraction consumes input\<close>

lemma take_sign_len: "take_sign b = (n, r) \<Longrightarrow> length r \<le> length b"
  by (auto simp: take_sign_def split: list.splits if_splits)

lemma take_fraction_len: "take_fraction b = (fp, r) \<Longrightarrow> length r + length fp \<le> length b"
proof -
  have "length (takeWhile isdigit xs) + length (dropWhile isdigit xs) = length xs" for xs
    by (metis length_append takeWhile_dropWhile_id)
  then have "length (dropWhile isdigit xs) + length (takeWhile isdigit xs) \<le> Suc (length xs)" for xs
    by (simp add: add.commute)
  then show "take_fraction b = (fp, r) \<Longrightarrow> length r + length fp \<le> length b"
    by (cases b) (auto simp: take_fraction_def split: if_splits)
qed

lemma take_exponent_len: "take_exponent b = (e, r) \<Longrightarrow> length r \<le> length b"
proof -
  assume a: "take_exponent b = (e, r)"
  show ?thesis
  proof (cases b)
    case Nil
    with a show ?thesis by (simp add: take_exponent_def)
  next
    case (Cons c b')
    show ?thesis
    proof (cases "c = CHR ''e'' \<or> c = CHR ''E''")
      case False
      with a Cons show ?thesis by (auto simp: take_exponent_def)
    next
      case True
      obtain n r1 where s: "take_sign b' = (n, r1)" by force
      with a Cons True have "r = dropWhile isdigit r1"
        by (auto simp: take_exponent_def)
      moreover have "length (dropWhile isdigit r1) \<le> length r1" by (rule length_dropWhile_le)
      moreover have "length r1 \<le> length b'" using s by (rule take_sign_len)
      ultimately show ?thesis using Cons by simp
    qed
  qed
qed

lemma length_parse_double:
  assumes "parse_double b = (Converted x, r)"
  shows "length r < length b"
proof -
  obtain neg b1 where s: "take_sign b = (neg, b1)" by force
  define ip where "ip = takeWhile isdigit b1"
  define b2 where "b2 = dropWhile isdigit b1"
  obtain fp b3 where f: "take_fraction b2 = (fp, b3)" by force
  obtain ex b4 where e: "(if ip = [] \<and> fp = [] then (None, b3) else take_exponent b3) = (ex, b4)"
    by force
  from assms s f e have nz: "\<not> (ip = [] \<and> fp = [])" and r: "r = b4"
    by (auto simp: parse_double_def Let_def ip_def b2_def split: option.splits if_splits)
  from nz e have "take_exponent b3 = (ex, b4)" by (auto split: if_splits)
  then have l4: "length b4 \<le> length b3" by (rule take_exponent_len)
  have l3: "length b3 + length fp \<le> length b2" using f by (rule take_fraction_len)
  have l2: "length ip + length b2 = length b1"
    unfolding ip_def b2_def by (metis length_append takeWhile_dropWhile_id)
  have l1: "length b1 \<le> length b" using s by (rule take_sign_len)
  from nz have "0 < length ip + length fp" by auto
  with l1 l2 l3 l4 show ?thesis unfolding r by linarith
qed

lemma get_double_failbit: "failbit s \<Longrightarrow> failbit (snd (get_double v s))"
  by (simp add: get_double_def)

lemma get_double_good:
  assumes "\<not> eofbit s" "\<not> failbit s" "dropWhile isspace (buf s) \<noteq> []"
    and "parse_double (dropWhile isspace (buf s)) = (res, r)"
  shows "get_double v s =
    (case res of
       NoConversion \<Rightarrow> (0, \<lparr>buf = r, eofbit = (r = []), failbit = True\<rparr>)
     | OutOfRange m \<Rightarrow> (m, \<lparr>buf = r, eofbit = (r = []), failbit = True\<rparr>)
     | Converted x \<Rightarrow> (x, \<lparr>buf = r, eofbit = (r = []), failbit = False\<rparr>))"
  using assms unfolding get_double_def Let_def by (auto split: conversion.split)

lemma get_double_shorter:
  assumes "\<not> failbit (snd (get_double v s))"
  shows "length (buf (snd (get_double v s))) < length (buf s)"
proof -
  from assms have good: "\<not> eofbit s" "\<not> failbit s"
    by (auto simp: get_double_def split: if_splits)
  define b where "b = dropWhile isspace (buf s)"
  have ne: "b \<noteq> []"
  proof
    assume "b = []"
    then have "get_double v s = (v, \<lparr>buf = [], eofbit = True, failbit = True\<rparr>)"
      using good unfolding get_double_def Let_def b_def by simp
    with assms show False by simp
  qed
  obtain res r where p: "parse_double b = (res, r)" by force
  note g = get_double_good[OF good ne[unfolded b_def] p[unfolded b_def], of v]
  from assms g obtain x where x: "res = Converted x"
    by (cases res) auto
  with g have "buf (snd (get_double v s)) = r"
    by simp
  moreover have "length r < length b" using p x length_parse_double by simp
  moreover have "length b \<le> length (buf s)" unfolding b_def by (rule length_dropWhile_le)
  ultimately show ?thesis by simp
qed

lemma get_pair_shorter:
  assumes "get_double v s = (t, s1)" "get_double w s1 = (f, s2)" "\<not> failbit s2"
  shows "length (buf s2) < length (buf s)"
proof -
  from assms have nf1: "\<not> failbit s1" using get_double_failbit[of s1 w] by auto
  have "length (buf s1) < length (buf s)" using get_double_shorter[of v s] assms(1) nf1 by simp
  moreover have "length (buf s2) < length (buf s1)" using get_double_shorter[of w s1] assms(2,3) by simp
  ultimately show ?thesis by simp
qed

termination read_loop
  apply (relation "measure (\<lambda>(s, ts, vs). length (buf s))")
   apply simp
  apply simp
  apply (metis get_pair_shorter)
  done

termination reads
  apply (relation "measure (\<lambda>s. length (buf s))")
   apply simp
  apply simp
  apply (metis get_pair_shorter)
  done

section \<open>The loader reads pairs\<close>

declare read_loop.simps [simp del] reads.simps [simp del]

lemma read_loop_reads:
  "read_loop s ts vs = (ts @ map (\<lambda>p. dmul 1000 (fst p)) (reads s), vs @ map snd (reads s))"
proof (induction s ts vs rule: read_loop.induct)
  case (1 infile ts vs)
  show ?case
  proof (cases "eofbit infile")
    case True
    then show ?thesis by (simp add: read_loop.simps[of infile] reads.simps[of infile])
  next
    case False
    obtain t s1 where a: "get_double 0 infile = (t, s1)" by force
    obtain f s2 where b: "get_double 0 s1 = (f, s2)" by force
    show ?thesis
    proof (cases "eofbit s2 \<or> failbit s2")
      case True
      with False a b show ?thesis by (simp add: read_loop.simps[of infile] reads.simps[of infile])
    next
      case stop: False
      from "1.IH"[OF False a[symmetric] refl b[symmetric] refl stop]
      show ?thesis using False a b stop
        by (simp add: read_loop.simps[of infile] reads.simps[of infile])
    qed
  qed
qed

lemma successive_reads: "successive s (reads s)"
proof (induction s rule: reads.induct)
  case (1 infile)
  show ?case
  proof (cases "eofbit infile")
    case True
    then show ?thesis by (simp add: reads.simps[of infile])
  next
    case False
    obtain t s1 where a: "get_double 0 infile = (t, s1)" by force
    obtain f s2 where b: "get_double 0 s1 = (f, s2)" by force
    show ?thesis
    proof (cases "eofbit s2 \<or> failbit s2")
      case True
      with False a b show ?thesis by (simp add: reads.simps[of infile])
    next
      case stop: False
      have nf1: "\<not> failbit s1" using get_double_failbit[of s1 0] b stop by auto
      from "1.IH"[OF False a[symmetric] refl b[symmetric] refl stop]
      show ?thesis using False a b stop nf1
        by (simp add: reads.simps[of infile])
    qed
  qed
qed

section \<open>Well-formed lines followed by a pair that cannot be read\<close>















section \<open>The drift loop\<close>

lemma electron_loop_eq:
  "0 \<le> p \<Longrightarrow> p \<le> maxElectrons \<Longrightarrow> electron_loop es p cs =
     (p + int (length (take (nat (maxElectrons - p)) es)), cs @ map drift_call (take (nat (maxElectrons - p)) es))"
proof (induction es arbitrary: p cs)
  case Nil
  then show ?case by simp
next
  case (Cons e es)
  show ?case
  proof (cases "p \<ge> maxElectrons")
    case True
    with Cons.prems have "p = maxElectrons" by simp
    then show ?thesis by simp
  next
    case False
    then have "nat (maxElectrons - p) = Suc (nat (maxElectrons - (p + 1)))" by simp
    with False Cons.prems Cons.IH[of "p + 1" "cs @ [drift_call e]"] show ?thesis
      by simp
  qed
qed

lemma cluster_loop_eq:
  "0 \<le> p \<Longrightarrow> p \<le> maxElectrons \<Longrightarrow> cluster_loop cl p cs =
     (p + int (length (take (nat (maxElectrons - p)) (concat (map electrons cl)))),
      cs @ map drift_call (take (nat (maxElectrons - p)) (concat (map electrons cl))))"
proof (induction cl arbitrary: p cs)
  case Nil
  then show ?case by simp
next
  case (Cons c cl)
  define k where "k = nat (maxElectrons - p)"
  define n where "n = length (take k (electrons c))"
  have el: "electron_loop (electrons c) p cs = (p + int n, cs @ map drift_call (take k (electrons c)))"
    unfolding n_def k_def using Cons.prems by (rule electron_loop_eq)
  have nk: "n \<le> k" unfolding n_def by simp
  have pk: "p + int k = maxElectrons" unfolding k_def using Cons.prems by simp
  show ?case
  proof (cases "p + int n \<ge> maxElectrons")
    case True
    with nk pk have "n = k" by simp
    then have "k \<le> length (electrons c)" unfolding n_def by simp
    then have "take k (electrons c @ concat (map electrons cl)) = take k (electrons c)" by simp
    with True el \<open>n = k\<close> show ?thesis
      by (simp add: k_def[symmetric] n_def)
  next
    case False
    with nk pk have lt: "n < k" by simp
    then have all: "take k (electrons c) = electrons c" and len: "n = length (electrons c)"
      unfolding n_def by auto
    have k': "nat (maxElectrons - (p + int n)) = k - n" unfolding k_def by simp
    have "0 \<le> p + int n" "p + int n \<le> maxElectrons" using Cons.prems False by simp_all
    note ih = Cons.IH[OF this, of "cs @ map drift_call (electrons c)", unfolded k']
    have tk: "take k (electrons c @ concat (map electrons cl)) = electrons c @ take (k - n) (concat (map electrons cl))"
      using lt len by simp
    from False el all ih show ?thesis
      by (simp add: k_def[symmetric] tk len)
  qed
qed

lemma drift_loop_eq: "drift_loop cl = map drift_call (take 200 (concat (map electrons cl)))"
  using cluster_loop_eq[of 0 cl "[]"] by (simp add: drift_loop_def maxElectrons_def)


section \<open>Claims on the transfer-function loader\<close>

lemma readTransferFunction_reads:
  "readTransferFunction (Some content) sensor =
     Inr (sensor @ [SetTransferFunction (map (\<lambda>p. dmul 1000 (fst p)) (reads (opened content)))
                                        (map snd (reads (opened content)))])"
  by (simp add: readTransferFunction_def read_loop_reads)




text \<open>
  Apart from malformed lines: a last pair that ends the file, with no white space after
  its second number, sets \<^verbatim>\<open>eofbit\<close> while it is read, and line 30 leaves the loop
  before the pair is stored.
\<close>

lemma last_pair_at_end_of_file:
  "loaded_samples ''1 2\<newline>3 4'' = [(1000, 2)] \<and>
   loaded_samples ''1 2\<newline>3 4\<newline>'' = [(1000, 2), (3000, 4)]"
  by code_simp




text \<open>
  C10: whenever the loader passes its result to the sensor, the vector of times and the
  vector of values have the same length, and the entries at one index come from one
  pair of the input, both numbers of which were read without failure.
\<close>

theorem times_values_aligned:
  "\<exists>times' values'.
     readTransferFunction (Some content) sensor = Inr (sensor @ [SetTransferFunction times' values']) \<and>
     length times' = length values' \<and>
     zip times' values' = map (\<lambda>p. (dmul 1000 (fst p), snd p)) (reads (opened content)) \<and>
     successive (opened content) (reads (opened content))"
proof -
  let ?ps = "reads (opened content)"
  have "zip (map (\<lambda>p. dmul 1000 (fst p)) ps) (map snd ps) = map (\<lambda>p. (dmul 1000 (fst p), snd p)) ps"
    for ps :: "(double \<times> double) list"
    by (induction ps) auto
  then show ?thesis
    using readTransferFunction_reads[of content sensor] successive_reads[of "opened content"]
    by (intro exI[of _ "map (\<lambda>p. dmul 1000 (fst p)) ?ps"] exI[of _ "map snd ?ps"]) simp
qed

text \<open>C10 on a file whose second line lacks its second number.\<close>

theorem times_values_aligned_witness:
  "readTransferFunction (Some ''1 2\<newline>3 x\<newline>'') [] = Inr [SetTransferFunction [1000] [2]] \<and>
   successive (opened ''1 2\<newline>3 x\<newline>'') [(1, 2)]"
proof -
  have r: "reads (opened ''1 2\<newline>3 x\<newline>'') = [(1, 2)]" by code_simp
  have m: "dmul 1000 1 = 1000" by code_simp
  from times_values_aligned[of "''1 2\<newline>3 x\<newline>''" "[]"] show ?thesis unfolding r
    by (auto simp: zip_eq_conv m)
qed

section \<open>Claims on the driver\<close>

text \<open>
  C2, as stated: when the resource cannot be opened the driver terminates with a
  non-zero exit code. \<^verbatim>\<open>main\<close> returns 0 there.
\<close>

theorem exit_status_counterexample:
  "ending (main world_without_file) = Return 0 \<and>
   \<not> nonzero_exit (ending (main world_without_file))"
  by (simp add: main_def world_without_file_def readTransferFunction_def nonzero_exit_def)

text \<open>
  C2, amended: if the transfer-function resource cannot be opened, loading fails with
  \<open>ResourceUnavailable\<close> and the failure is fatal to the run: \<^verbatim>\<open>main\<close> returns at once,
  having cleared no signal, started no track and convolved nothing, and the driver
  process terminates with exit code 0.
\<close>

theorem unopened_file_ends_run:
  assumes "tf_file w = None"
  shows "readTransferFunction (tf_file w) sensor = Inl ResourceUnavailable \<and>
         main w = \<lparr>calls = [AddElectrode, SetTimeWindow tmin tstep nbins], ending = Return 0\<rparr>"
  using assms by (simp add: readTransferFunction_def main_def)

text \<open>The amended C2 in a world where the file is missing.\<close>

theorem unopened_file_ends_run_witness:
  "tf_file world_without_file = None \<and>
   readTransferFunction (tf_file world_without_file) [] = Inl ResourceUnavailable \<and>
   main world_without_file =
     \<lparr>calls = [AddElectrode, SetTimeWindow tmin tstep nbins], ending = Return 0\<rparr>"
proof -
  have n: "tf_file world_without_file = None" by (simp add: world_without_file_def)
  from unopened_file_ends_run[OF n, of "[]"] n show ?thesis by simp
qed

subsection \<open>The calls of a run\<close>

lemma convolved_once_clear:
  "convolved_once c (xs @ ClearSignal # ys) = (convolved_once c xs \<and> convolved_once False ys)"
  by (induction c xs rule: convolved_once.induct) auto

lemma convolved_once_drift:
  "convolved_once c (map drift_call es @ ys) = convolved_once c ys"
  by (induction es) (auto simp: drift_call_def)

lemma cluster_loop_calls:
  "snd (cluster_loop cl 0 cs) = cs @ drift_loop cl"
  using cluster_loop_eq[of 0 cl cs] cluster_loop_eq[of 0 cl "[]"]
  by (simp add: drift_loop_def maxElectrons_def)

lemma track_body_shape:
  "\<exists>seg. track_body w cs j = cs @ ClearSignal # seg \<and> convolved_once False seg"
proof (cases "totalElectrons (GetClusters w j) = 0")
  case True
  then have "track_body w cs j = cs @ ClearSignal # [NewTrack]"
    by (simp add: track_body_def)
  then show ?thesis by auto
next
  case False
  let ?d = "drift_loop (GetClusters w j)"
  let ?tail = "if crossing_found w j then [PlotSignal] else []"
  from False have "track_body w cs j =
      cs @ ClearSignal # (NewTrack # ?d @ [ConvoluteSignals, ComputeThresholdCrossings (- 2)] @ ?tail)"
    by (simp add: track_body_def Let_def cluster_loop_calls)
  moreover have "convolved_once False (NewTrack # ?d @ [ConvoluteSignals, ComputeThresholdCrossings (- 2)] @ ?tail)"
    by (simp add: drift_loop_eq convolved_once_drift)
  ultimately show ?thesis by blast
qed

lemma tracks_extend:
  "\<exists>ext. foldl (track_body w) cs [0..<n] = cs @ ext"
proof (induction n)
  case 0
  then show ?case by simp
next
  case (Suc n)
  then obtain ext where e: "foldl (track_body w) cs [0..<n] = cs @ ext" by blast
  obtain seg where "track_body w (cs @ ext) n = (cs @ ext) @ ClearSignal # seg"
    using track_body_shape[of w "cs @ ext" n] by blast
  with e show ?case by simp
qed

lemma tracks_convolved_once:
  "convolved_once c cs \<Longrightarrow> convolved_once c (foldl (track_body w) cs [0..<n])"
proof (induction n)
  case 0
  then show ?case by simp
next
  case (Suc n)
  let ?cs = "foldl (track_body w) cs [0..<n]"
  obtain seg where s: "track_body w ?cs n = ?cs @ ClearSignal # seg" "convolved_once False seg"
    using track_body_shape[of w ?cs n] by blast
  with Suc show ?case by (simp add: convolved_once_clear)
qed

lemma loaded_first_True: "loaded_first True cs"
proof (induction cs)
  case Nil
  then show ?case by simp
next
  case (Cons a cs)
  then show ?case by (cases a) simp_all
qed

lemma apply_call_keeps_transfer:
  assumes "transfer s \<noteq> None"
  shows "\<exists>s'. apply_call outcome c s = Inr s' \<and> transfer s' \<noteq> None"
proof (cases c)
  case (DriftElectron x y z t)
  then show ?thesis using assms by (cases "outcome (drifted s)") auto
next
  case ConvoluteSignals
  then show ?thesis using assms by (auto simp: Convolve_def)
qed (use assms in auto)

lemma run_calls_loaded:
  "transfer s \<noteq> None \<Longrightarrow> \<exists>s'. run_calls outcome cs s = Inr s' \<and> transfer s' \<noteq> None"
proof (induction cs arbitrary: s)
  case Nil
  then show ?case by simp
next
  case (Cons c cs)
  from apply_call_keeps_transfer[OF Cons.prems, of outcome c]
  obtain s1 where a: "apply_call outcome c s = Inr s1" "transfer s1 \<noteq> None" by blast
  from Cons.IH[OF a(2)] a(1) show ?case by simp
qed

lemma main_calls:
  "calls (main w) = [AddElectrode, SetTimeWindow tmin tstep nbins] \<or>
   (\<exists>ts vs ext. calls (main w) =
      [AddElectrode, SetTimeWindow tmin tstep nbins, SetTransferFunction ts vs, ClearSignal,
       SetGainFluctuationsPolya 0 20000] @ ext \<and>
      convolved_once False (calls (main w)))"
proof (cases "tf_file w")
  case None
  then show ?thesis by (simp add: main_def readTransferFunction_def)
next
  case (Some content)
  let ?ts = "map (\<lambda>p. dmul 1000 (fst p)) (reads (opened content))"
  let ?vs = "map snd (reads (opened content))"
  let ?base = "[AddElectrode, SetTimeWindow tmin tstep nbins, SetTransferFunction ?ts ?vs, ClearSignal,
       SetGainFluctuationsPolya 0 20000]"
  have c: "calls (main w) = foldl (track_body w) ?base [0..<nTracks]"
    using Some by (simp add: main_def readTransferFunction_reads)
  obtain ext where e: "foldl (track_body w) ?base [0..<nTracks] = ?base @ ext"
    using tracks_extend by blast
  have "convolved_once False ?base" by simp
  then have "convolved_once False (foldl (track_body w) ?base [0..<nTracks])"
    by (rule tracks_convolved_once)
  with c e show ?thesis by auto
qed

text \<open>
  C5: in every run of \<^verbatim>\<open>main\<close>, \<^verbatim>\<open>ConvoluteSignals\<close> is called at most once between
  one \<^verbatim>\<open>ClearSignal\<close> and the next, and never before \<^verbatim>\<open>SetTransferFunction\<close> has been
  called by a load that succeeded; so the calls of \<^verbatim>\<open>main\<close> run on the sensor without
  error, whatever the drift outcomes. On a sensor without a transfer function the
  convolution fails with \<open>MissingTransferFunction\<close>.
\<close>

theorem convolution_guarded:
  "convolved_once False (calls (main w)) \<and>
   loaded_first False (calls (main w)) \<and>
   (\<exists>s. run_calls outcome (calls (main w)) new_sensor = Inr s) \<and>
   (transfer s0 = None \<longrightarrow> apply_call outcome ConvoluteSignals s0 = Inl MissingTransferFunction)"
proof -
  have d: "transfer s0 = None \<longrightarrow> apply_call outcome ConvoluteSignals s0 = Inl MissingTransferFunction"
    by (simp add: Convolve_def)
  from main_calls[of w] show ?thesis
  proof
    assume "calls (main w) = [AddElectrode, SetTimeWindow tmin tstep nbins]"
    with d show ?thesis by simp
  next
    assume "\<exists>ts vs ext. calls (main w) =
      [AddElectrode, SetTimeWindow tmin tstep nbins, SetTransferFunction ts vs, ClearSignal,
       SetGainFluctuationsPolya 0 20000] @ ext \<and> convolved_once False (calls (main w))"
    then obtain ts vs ext where c: "calls (main w) =
      [AddElectrode, SetTimeWindow tmin tstep nbins, SetTransferFunction ts vs, ClearSignal,
       SetGainFluctuationsPolya 0 20000] @ ext" and o: "convolved_once False (calls (main w))"
      by blast
    have l: "loaded_first False (calls (main w))"
      unfolding c by (simp add: loaded_first_True)
    let ?s = "new_sensor\<lparr>startTime := tmin, binWidth := tstep, samples := replicate nbins 0, deposits := 0,
        transfer := Some (zip ts vs)\<rparr>"
    have "transfer ?s \<noteq> None" by simp
    from run_calls_loaded[OF this, of outcome "ClearSignal # SetGainFluctuationsPolya 0 20000 # ext"]
    have "\<exists>s. run_calls outcome (calls (main w)) new_sensor = Inr s"
      unfolding c by auto
    with o l d show ?thesis by blast
  qed
qed

text \<open>C5 in a world with one track of one electron, and on a new sensor.\<close>

theorem convolution_guarded_witness:
  "calls (main world_with_track) =
     [AddElectrode, SetTimeWindow 0 (2 / 3) 3000, SetTransferFunction [1000, 3000] [2, 4],
      ClearSignal, SetGainFluctuationsPolya 0 20000, ClearSignal, NewTrack, DriftElectron 0 0 0 0,
      ConvoluteSignals, ComputeThresholdCrossings (- 2), PlotSignal] \<and>
   convolved_once False (calls (main world_with_track)) \<and>
   loaded_first False (calls (main world_with_track)) \<and>
   transfer new_sensor = None \<and>
   apply_call (\<lambda>k. Lost) ConvoluteSignals new_sensor = Inl MissingTransferFunction"
proof -
  have c: "calls (main world_with_track) =
     [AddElectrode, SetTimeWindow 0 (2 / 3) 3000, SetTransferFunction [1000, 3000] [2, 4],
      ClearSignal, SetGainFluctuationsPolya 0 20000, ClearSignal, NewTrack, DriftElectron 0 0 0 0,
      ConvoluteSignals, ComputeThresholdCrossings (- 2), PlotSignal]"
    by code_simp
  have n: "transfer new_sensor = None" by (simp add: new_sensor_def)
  from convolution_guarded[where w = world_with_track and ?s0.0 = new_sensor and outcome = "\<lambda>k. Lost"] c n
  show ?thesis by simp
qed

text \<open>
  C6: the drift loop hands to the drift simulator the first 200 electrons of the track,
  in the order of the clusters and, within a cluster, in the stored order, each with its
  own coordinates and time: \<open>min N 200\<close> electrons when the clusters hold \<open>N\<close>, which is
  also where the counter \<^verbatim>\<open>processedElectrons\<close> ends.
\<close>

theorem drift_loop_hands_first_200:
  "cluster_loop clusters 0 cs =
     (int (min (length (concat (map electrons clusters))) 200),
      cs @ map (\<lambda>e. DriftElectron (e_x e) (e_y e) (e_z e) (e_t e))
             (take 200 (concat (map electrons clusters)))) \<and>
   drift_loop clusters =
     map (\<lambda>e. DriftElectron (e_x e) (e_y e) (e_z e) (e_t e))
       (take 200 (concat (map electrons clusters))) \<and>
   length (drift_loop clusters) = min (length (concat (map electrons clusters))) 200"
proof -
  have d: "drift_call = (\<lambda>e. DriftElectron (e_x e) (e_y e) (e_z e) (e_t e))"
    by (rule ext) (simp add: drift_call_def)
  show ?thesis
    using cluster_loop_eq[of 0 clusters cs] by (simp add: drift_loop_eq maxElectrons_def d)
qed

text \<open>
  C6 on a track of two clusters of 150 electrons each, electron \<open>i\<close> of the track at
  \<open>(i, i + 1000, i + 2000)\<close> and time \<open>i + 3000\<close>.
\<close>

theorem drift_loop_hands_first_200_witness:
  "length (concat (map electrons [\<lparr>electrons = map numbered [0..<150]\<rparr>,
                                  \<lparr>electrons = map numbered [150..<300]\<rparr>])) = 300 \<and>
   drift_loop [\<lparr>electrons = map numbered [0..<150]\<rparr>, \<lparr>electrons = map numbered [150..<300]\<rparr>] =
     map (\<lambda>i. DriftElectron (real i) (real i + 1000) (real i + 2000) (real i + 3000)) [0..<200]"
proof -
  have u: "[0..<150] @ [150..<300] = [0..<300]"
    using upt_add_eq_append[of 0 150 150] by simp
  have "map numbered [0..<150] @ map numbered [150..<300] = map numbered [0..<300]"
    unfolding map_append[symmetric] u ..
  moreover have "take 200 (map numbered [0..<300]) = map numbered [0..<200]"
    by (simp add: take_map)
  ultimately show ?thesis
    using drift_loop_hands_first_200[of "[\<lparr>electrons = map numbered [0..<150]\<rparr>,
        \<lparr>electrons = map numbered [150..<300]\<rparr>]"]
    by (simp add: numbered_def)
qed

text \<open>
  The loop is entered when the 32-bit counter \<^verbatim>\<open>totalElectrons\<close> is not zero, which
  for fewer than \<open>2 ^ 32\<close> electrons means that there is an electron; the calls of one
  track are then those of the drift loop between the clearing and the convolution.
\<close>

lemma totalElectrons_acc:
  "foldl (\<lambda>n c. n + of_nat (length (electrons c))) a cl =
     a + (of_nat (length (concat (map electrons cl))) :: 32 word)"
  by (induction cl arbitrary: a) (simp_all add: algebra_simps)

lemma totalElectrons_eq:
  "totalElectrons cl = of_nat (length (concat (map electrons cl)))"
  by (simp add: totalElectrons_def totalElectrons_acc)

lemma totalElectrons_zero:
  assumes "length (concat (map electrons cl)) < 2 ^ 32"
  shows "totalElectrons cl = 0 \<longleftrightarrow> concat (map electrons cl) = []"
proof -
  define N where "N = length (concat (map electrons cl))"
  have lt: "N < 2 ^ 32" using assms by (simp add: N_def)
  have "totalElectrons cl = 0 \<longleftrightarrow> 2 ^ 32 dvd N"
    unfolding totalElectrons_eq N_def[symmetric] by (simp add: word_of_nat_eq_0_iff)
  also have "\<dots> \<longleftrightarrow> N = 0"
    using lt by (auto dest: dvd_imp_le)
  finally show ?thesis unfolding N_def by simp
qed

lemma track_body_calls:
  assumes "totalElectrons (GetClusters w j) \<noteq> 0"
  shows "track_body w cs j =
           cs @ [ClearSignal, NewTrack] @ drift_loop (GetClusters w j) @
           [ConvoluteSignals, ComputeThresholdCrossings (- 2)] @
           (if crossing_found w j then [PlotSignal] else [])"
  using assms by (simp add: track_body_def Let_def cluster_loop_calls)

section \<open>Claims on the deposits\<close>

lemma Deposit_drifted: "Deposit r (s\<lparr>drifted := k\<rparr>) = (Deposit r s)\<lparr>drifted := k\<rparr>"
  by (cases r) (simp_all add: bin_of_def)

lemma Deposit_keeps_drifted: "drifted (Deposit r s) = drifted s"
  by (cases r) simp_all

lemma deposit_all_drifted: "deposit_all rs (s\<lparr>drifted := k\<rparr>) = (deposit_all rs s)\<lparr>drifted := k\<rparr>"
  unfolding deposit_all_def by (induction rs arbitrary: s) (simp_all add: Deposit_drifted)

lemma deposit_all_keeps_drifted: "drifted (deposit_all rs s) = drifted s"
  unfolding deposit_all_def by (induction rs arbitrary: s) (simp_all add: Deposit_keeps_drifted)

lemma deposit_all_Cons: "deposit_all (r # rs) s = deposit_all rs (Deposit r s)"
  by (simp add: deposit_all_def)

lemma run_drift_calls:
  "run_calls outcome (map drift_call es) s =
     Inr ((deposit_all (map outcome [drifted s..<drifted s + length es]) s)
            \<lparr>drifted := drifted s + length es\<rparr>)"
proof (induction es arbitrary: s)
  case Nil
  then show ?case by (simp add: deposit_all_def)
next
  case (Cons e es)
  let ?s1 = "Deposit (outcome (drifted s)) (s\<lparr>drifted := Suc (drifted s)\<rparr>)"
  have d1: "drifted ?s1 = Suc (drifted s)" by (simp add: Deposit_keeps_drifted)
  have u: "[drifted s..<drifted s + length (e # es)] = drifted s # [Suc (drifted s)..<Suc (drifted s) + length es]"
    by (subst upt_rec) simp
  have "run_calls outcome (map drift_call (e # es)) s = run_calls outcome (map drift_call es) ?s1"
    by (simp add: drift_call_def)
  also have "\<dots> = Inr ((deposit_all (map outcome [Suc (drifted s)..<Suc (drifted s) + length es]) ?s1)
            \<lparr>drifted := Suc (drifted s) + length es\<rparr>)"
    using Cons.IH[of ?s1] unfolding d1 .
  also have "\<dots> = Inr ((deposit_all (map outcome [drifted s..<drifted s + length (e # es)]) s)
            \<lparr>drifted := drifted s + length (e # es)\<rparr>)"
    unfolding u by (simp add: deposit_all_Cons Deposit_drifted deposit_all_drifted)
  finally show ?case .
qed

lemma deposit_all_collected: "deposit_all rs s = deposit_all (filter is_Collected rs) s"
proof (induction rs arbitrary: s)
  case Nil
  then show ?case by simp
next
  case (Cons r rs)
  then show ?case by (cases r) (simp_all add: deposit_all_Cons)
qed

lemma deposits_deposit_all:
  "deposits (deposit_all rs s) = deposits s + length (filter is_Collected rs)"
proof (induction rs arbitrary: s)
  case Nil
  then show ?case by (simp add: deposit_all_def)
next
  case (Cons r rs)
  then show ?case by (cases r) (simp_all add: deposit_all_Cons)
qed

text \<open>
  C7: a diverged electron does not end the batch. The drift loop hands every electron
  up to the cap to the simulator whatever the outcomes of the earlier ones, an electron
  that was lost or diverged leaves the signal buffer as it was, and the number of
  deposits made is the number of electrons collected.
\<close>

theorem lost_and_diverged_are_skipped:
  "\<exists>s'. run_calls outcome (drift_loop clusters) s = Inr s' \<and>
     drifted s' = drifted s + min (length (concat (map electrons clusters))) 200 \<and>
     deposits s' = deposits s + length (filter is_Collected (map outcome [drifted s..<drifted s'])) \<and>
     s' = (deposit_all (filter is_Collected (map outcome [drifted s..<drifted s'])) s)
            \<lparr>drifted := drifted s'\<rparr>"
proof -
  define n where "n = min (length (concat (map electrons clusters))) 200"
  define rs where "rs = map outcome [drifted s..<drifted s + n]"
  define s' where "s' = (deposit_all rs s)\<lparr>drifted := drifted s + n\<rparr>"
  have len: "length (take 200 (concat (map electrons clusters))) = n"
    by (simp add: n_def)
  have r: "run_calls outcome (drift_loop clusters) s = Inr s'"
    unfolding drift_loop_eq s'_def rs_def len[symmetric] by (rule run_drift_calls)
  have d: "drifted s' = drifted s + n"
    by (simp add: s'_def)
  have rs': "map outcome [drifted s..<drifted s'] = rs"
    by (simp add: d rs_def)
  have c: "deposits s' = deposits s + length (filter is_Collected rs)"
    unfolding s'_def by (simp add: deposits_deposit_all)
  have e: "s' = (deposit_all (filter is_Collected rs) s)\<lparr>drifted := drifted s'\<rparr>"
    unfolding d unfolding s'_def using deposit_all_collected[of rs s] by simp
  from r d c e show ?thesis
    unfolding rs'[symmetric] n_def by blast
qed

text \<open>C7 on three electrons, the first collected, the second diverged, the third lost.\<close>

theorem lost_and_diverged_are_skipped_witness:
  "\<exists>s'. run_calls (\<lambda>k. if k = 0 then Collected 1 20000 else if k = 1 then Diverged else Lost)
           (drift_loop [\<lparr>electrons = [one_electron, one_electron, one_electron]\<rparr>])
           (new_sensor\<lparr>samples := [0, 0, 0]\<rparr>) = Inr s' \<and>
        drifted s' = 3 \<and> deposits s' = 1 \<and> samples s' = [0, 20000, 0]"
proof -
  let ?oc = "\<lambda>k::nat. if k = 0 then Collected 1 20000 else if k = 1 then Diverged else Lost"
  let ?s = "new_sensor\<lparr>samples := [0, 0, 0]\<rparr>"
  from lost_and_diverged_are_skipped[of ?oc "[\<lparr>electrons = [one_electron, one_electron, one_electron]\<rparr>]" ?s]
  obtain s' where a: "run_calls ?oc (drift_loop [\<lparr>electrons = [one_electron, one_electron, one_electron]\<rparr>]) ?s = Inr s'"
    and b: "drifted s' = drifted ?s + min (length (concat (map electrons [\<lparr>electrons = [one_electron, one_electron, one_electron]\<rparr>]))) 200"
    and c: "deposits s' = deposits ?s + length (filter is_Collected (map ?oc [drifted ?s..<drifted s']))"
    and d: "s' = (deposit_all (filter is_Collected (map ?oc [drifted ?s..<drifted s'])) ?s)\<lparr>drifted := drifted s'\<rparr>"
    by blast
  from b have b': "drifted s' = 3" by (simp add: new_sensor_def)
  have u: "[0..<3] = [0, 1, 2]" by (simp add: upt_rec)
  have f: "filter is_Collected (map ?oc [drifted ?s..<drifted s']) = [Collected 1 20000]"
    unfolding b' by (simp add: new_sensor_def u)
  from c have c': "deposits s' = 1" unfolding f by (simp add: new_sensor_def)
  from d have "samples s' = samples (deposit_all [Collected 1 20000] ?s)" unfolding f
    by (metis SensorState.select_convs(2) SensorState.surjective SensorState.update_convs(6))
  then have d': "samples s' = [0, 20000, 0]"
    by (simp add: deposit_all_def new_sensor_def bin_of_def add_at_def)
  from a b' c' d' show ?thesis by blast
qed

section \<open>Claims on the field grid\<close>

lemma grid_value_mono:
  assumes "2 \<le> ne" "0 < lo" "lo < hi" "i < j"
  shows "grid_value lo hi ne logE i < grid_value lo hi ne logE j"
proof -
  have n: "0 < real (ne - 1)" using assms(1) by simp
  then have frac: "real i / real (ne - 1) < real j / real (ne - 1)"
    using assms(4) by (simp add: divide_strict_right_mono)
  show ?thesis
  proof (cases logE)
    case True
    have "1 < hi / lo" using assms(2,3) by simp
    then have "(hi / lo) powr (real i / real (ne - 1)) < (hi / lo) powr (real j / real (ne - 1))"
      using frac by (rule powr_less_mono[rotated])
    then show ?thesis using True assms(2) by (simp add: grid_value_def)
  next
    case False
    have "0 < (hi - lo) / real (ne - 1)" using assms(3) n by simp
    moreover have "real i < real j" using assms(4) by simp
    ultimately have "real i * ((hi - lo) / real (ne - 1)) < real j * ((hi - lo) / real (ne - 1))"
      by (rule mult_strict_right_mono[rotated])
    then show ?thesis using False by (simp add: grid_value_def)
  qed
qed

lemma grid_value_first: "0 < lo \<Longrightarrow> lo < hi \<Longrightarrow> grid_value lo hi ne logE 0 = lo"
  by (simp add: grid_value_def)

lemma grid_value_last:
  assumes "2 \<le> ne" "0 < lo" "lo < hi"
  shows "grid_value lo hi ne logE (ne - 1) = hi"
proof -
  have n: "real (ne - 1) \<noteq> 0" using assms(1) by simp
  then have one: "real (ne - 1) / real (ne - 1) = 1" by simp
  show ?thesis
  proof (cases logE)
    case True
    have "0 \<le> hi / lo" using assms(2,3) by simp
    then have "(hi / lo) powr 1 = hi / lo" by (rule powr_one)
    then show ?thesis using True assms(2) unfolding grid_value_def one by simp
  next
    case False
    have "real (ne - 1) * ((hi - lo) / real (ne - 1)) = hi - lo" using n by simp
    then show ?thesis using False unfolding grid_value_def by simp
  qed
qed

lemma SetFieldGrid_valid:
  assumes "2 \<le> ne" "0 < lo" "lo < hi"
  shows "\<exists>vs. SetFieldGrid lo hi ne logE = Inr vs \<and> length vs = ne \<and> sorted_wrt (<) vs \<and>
           vs ! 0 = lo \<and> vs ! (ne - 1) = hi \<and>
           (logE \<longrightarrow> (\<forall>i<ne. vs ! i = lo * (hi / lo) powr (real i / real (ne - 1))))"
proof -
  let ?vs = "map (grid_value lo hi ne logE) [0..<ne]"
  have a: "SetFieldGrid lo hi ne logE = Inr ?vs" using assms by (simp add: SetFieldGrid_def)
  have s: "sorted_wrt (<) ?vs"
    using grid_value_mono[OF assms] by (simp add: sorted_wrt_iff_nth_less)
  have f: "?vs ! 0 = lo" using assms by (simp add: grid_value_first)
  have l: "?vs ! (ne - 1) = hi" using grid_value_last[OF assms, of logE] assms(1) by simp
  have g: "logE \<longrightarrow> (\<forall>i<ne. ?vs ! i = lo * (hi / lo) powr (real i / real (ne - 1)))"
    by (simp add: grid_value_def)
  from a s f l g show ?thesis by simp
qed

text \<open>
  C3: for every valid grid specification, a count of at least 2, a positive minimum and a
  maximum above it, the sampler gives exactly \<open>count\<close> strictly increasing values, the
  first the minimum and the last the maximum, and in logarithmic mode value \<open>i\<close> is
  \<open>min * (max / min) powr (i / (count - 1))\<close>. The grid that the generator asks for,
  15 values from 100 to 100000 in logarithmic mode, starts at 100 and ends at 100000.
\<close>

theorem field_grid_valid:
  "(2 \<le> ne \<and> 0 < lo \<and> lo < hi \<longrightarrow>
      (\<exists>vs. SetFieldGrid lo hi ne logE = Inr vs \<and> length vs = ne \<and> sorted_wrt (<) vs \<and>
           vs ! 0 = lo \<and> vs ! (ne - 1) = hi \<and>
           (logE \<longrightarrow> (\<forall>i<ne. vs ! i = lo * (hi / lo) powr (real i / real (ne - 1)))))) \<and>
   (\<exists>vs. gas_field_grid = Inr vs \<and> length vs = 15 \<and> vs ! 0 = 100 \<and> vs ! 14 = 100000)"
proof -
  have "(2::nat) \<le> 15" "(0::real) < 100" "(100::real) < 100000" by simp_all
  from SetFieldGrid_valid[OF this, of True]
  have "\<exists>vs. gas_field_grid = Inr vs \<and> length vs = 15 \<and> vs ! 0 = 100 \<and> vs ! 14 = 100000"
    by (auto simp: gas_field_grid_def nE_def emin_def emax_def useLog_def)
  then show ?thesis using SetFieldGrid_valid[of ne lo hi logE] by blast
qed

text \<open>C3 on the grid of the generator, with its middle value.\<close>

theorem field_grid_valid_witness:
  "(2::nat) \<le> 15 \<and> (0::real) < 100 \<and> (100::real) < 100000 \<and>
   (\<exists>vs. SetFieldGrid 100 100000 15 True = Inr vs \<and> length vs = 15 \<and> sorted_wrt (<) vs \<and>
          vs ! 0 = 100 \<and> vs ! 14 = 100000 \<and> vs ! 7 = 100 * 1000 powr (1 / 2))"
proof -
  have h: "(2::nat) \<le> 15 \<and> (0::real) < 100 \<and> (100::real) < 100000" by simp
  from field_grid_valid[of 15 100 100000 True] h
  obtain vs where v: "SetFieldGrid 100 100000 15 True = Inr vs" "length vs = 15" "sorted_wrt (<) vs"
    "vs ! 0 = 100" "vs ! (15 - 1) = 100000" "\<forall>i<15. vs ! i = 100 * (100000 / 100) powr (real i / real (15 - 1))"
    by auto
  from v(6) have "vs ! 7 = 100 * 1000 powr (1 / 2)" by simp
  with v h show ?thesis by simp
qed


end
